theory Spec2Isabelle
  imports Main
begin

section \<open>Slices as values\<close>

text \<open>
  The operations of \<^verbatim>\<open>sliceutils\<close> that only read their arguments and return a slice made
  by \<^verbatim>\<open>make\<close>, a composite literal or \<^verbatim>\<open>append\<close> on such a slice are modelled on the value of a
  slice: \<open>None\<close> is the nil slice, \<open>Some xs\<close> a non-nil slice holding \<open>xs\<close>.
  \<^verbatim>\<open>result := make([]T, len(x)); copy(result, x)\<close> gives the non-nil slice holding the
  elements of \<open>x\<close>. Element equality \<^verbatim>\<open>==\<close> is HOL equality, and a \<^verbatim>\<open>map[T]struct{}\<close> is a
  map to \<open>unit\<close>. Predicates are total and pure.
\<close>

type_synonym 'a slice = "'a list option"

definition elems :: "'a slice \<Rightarrow> 'a list" where
  "elems s = (case s of None \<Rightarrow> [] | Some xs \<Rightarrow> xs)"

definition len :: "'a slice \<Rightarrow> nat" where
  "len s = length (elems s)"

datatype panic = IndexOutOfRange | SliceBoundsOutOfRange | MakeSliceCapOutOfRange

subsection \<open>Equals\<close>

text \<open>The range loop of \<^verbatim>\<open>Equals\<close>; it runs after the lengths were found equal, so
  \<^verbatim>\<open>slice2[i]\<close> is in range.\<close>

function Equals_loop :: "'a list \<Rightarrow> 'a list \<Rightarrow> nat \<Rightarrow> bool" where
  "Equals_loop slice1 slice2 i =
     (if i < length slice1
      then (if slice1 ! i \<noteq> slice2 ! i then False else Equals_loop slice1 slice2 (Suc i))
      else True)"
  by pat_completeness auto
termination
  by (relation "measure (\<lambda>(slice1, slice2, i). length slice1 - i)") auto

declare Equals_loop.simps [simp del]

definition Equals :: "'a slice \<Rightarrow> 'a slice \<Rightarrow> bool" where
  "Equals slice1 slice2 =
     (if len slice1 \<noteq> len slice2 then False
      else if (slice1 = None) \<noteq> (slice2 = None) then False
      else Equals_loop (elems slice1) (elems slice2) 0)"

subsection \<open>Uniq, Difference, Intersection, Union\<close>



text \<open>\<^verbatim>\<open>for _, v := range xs { set[v] = struct{}{} }\<close>\<close>

fun fill_set :: "'a list \<Rightarrow> ('a \<rightharpoonup> unit) \<Rightarrow> ('a \<rightharpoonup> unit)" where
  "fill_set [] set' = set'"
| "fill_set (v # vs) set' = fill_set vs (set'(v \<mapsto> ()))"

fun Difference_loop :: "'a list \<Rightarrow> ('a \<rightharpoonup> unit) \<Rightarrow> 'a list \<Rightarrow> 'a list" where
  "Difference_loop [] set' result = result"
| "Difference_loop (v # vs) set' result =
     (if set' v = None then Difference_loop vs set' (result @ [v])
      else Difference_loop vs set' result)"

definition Difference :: "'a slice \<Rightarrow> 'a slice \<Rightarrow> 'a slice" where
  "Difference slice1 slice2 =
     (if len slice1 = 0 then Some []
      else if len slice2 = 0 then Some (elems slice1)
      else Some (Difference_loop (elems slice1) (fill_set (elems slice2) Map.empty) []))"

fun Intersection_loop ::
  "'a list \<Rightarrow> ('a \<rightharpoonup> unit) \<Rightarrow> ('a \<rightharpoonup> unit) \<Rightarrow> 'a list \<Rightarrow> 'a list" where
  "Intersection_loop [] set' seen result = result"
| "Intersection_loop (v # vs) set' seen result =
     (if set' v \<noteq> None
      then (if seen v = None then Intersection_loop vs set' (seen(v \<mapsto> ())) (result @ [v])
            else Intersection_loop vs set' seen result)
      else Intersection_loop vs set' seen result)"

definition Intersection :: "'a slice \<Rightarrow> 'a slice \<Rightarrow> 'a slice" where
  "Intersection slice1 slice2 =
     (if len slice1 = 0 \<or> len slice2 = 0 then Some []
      else
        let (smaller, larger) =
              (if len slice1 \<le> len slice2 then (slice1, slice2) else (slice2, slice1))
        in Some (Intersection_loop (elems larger) (fill_set (elems smaller) Map.empty)
                   Map.empty []))"



subsection \<open>Concat\<close>

text \<open>\<^verbatim>\<open>totalLen\<close> is only the capacity of the result; the second loop appends every
  argument in order.\<close>

fun Concat_loop :: "'a slice list \<Rightarrow> 'a list \<Rightarrow> 'a list" where
  "Concat_loop [] result = result"
| "Concat_loop (s # ss) result = Concat_loop ss (result @ elems s)"


subsection \<open>Take, Drop, TakeWhile, DropWhile\<close>









subsection \<open>Fill\<close>

text \<open>The write \<^verbatim>\<open>result[i] = value\<close> panics when \<open>i\<close> is out of range; the loop keeps that
  branch.\<close>

function Fill_loop :: "'a list \<Rightarrow> 'a \<Rightarrow> int \<Rightarrow> int \<Rightarrow> panic + 'a list" where
  "Fill_loop result v i e =
     (if i < e
      then (if 0 \<le> i \<and> i < int (length result)
            then Fill_loop (result[nat i := v]) v (i + 1) e
            else Inl IndexOutOfRange)
      else Inr result)"
  by pat_completeness auto
termination
  by (relation "measure (\<lambda>(result, v, i, e). nat (e - i))") auto

declare Fill_loop.simps [simp del]

definition Fill :: "'a slice \<Rightarrow> 'a \<Rightarrow> int \<Rightarrow> int \<Rightarrow> panic + 'a slice" where
  "Fill slice v start end' =
     (let result = elems slice;
          start = (if start < 0 then 0 else start);
          e = (if end' > int (length result) then int (length result) else end')
      in if start \<ge> e \<or> start \<ge> int (length result) then Inr (Some result)
         else map_sum id Some (Fill_loop result v start e))"

section \<open>Slices over shared storage\<close>

text \<open>
  \<^verbatim>\<open>Chunk\<close> returns slice expressions \<^verbatim>\<open>slice[i:end]\<close> of its argument and \<^verbatim>\<open>Shuffle\<close> writes
  into the slice it allocates, so both are modelled on slice headers over a store of
  backing arrays: the store is the list of the arrays allocated so far, an address is an
  index into it, and a header names an array, the offset of the slice in it, a length and
  a capacity. A nil slice has length and capacity 0. The Go type \<^verbatim>\<open>int\<close> has 64 bits:
  \<open>int64\<close> wraps a sum into its range, \<open>quot\<close> and \<open>rem\<close> are the truncated \<^verbatim>\<open>/\<close> and \<^verbatim>\<open>%\<close>.
  Running out of memory is not modelled.
\<close>

record slice_hdr =
  array :: nat
  offset :: nat
  hlen :: nat
  hcap :: nat

type_synonym 'a store = "'a list list"

definition wf_slice :: "'a store \<Rightarrow> slice_hdr \<Rightarrow> bool" where
  "wf_slice h s \<longleftrightarrow>
     array s < length h \<and> hlen s \<le> hcap s \<and> offset s + hcap s \<le> length (h ! array s) \<and>
     int (hcap s) < 2 ^ 63"

definition load :: "'a store \<Rightarrow> slice_hdr \<Rightarrow> 'a list" where
  "load h s = take (hlen s) (drop (offset s) (h ! array s))"

text \<open>\<^verbatim>\<open>s[k]\<close> as a value and \<^verbatim>\<open>s[k] = v\<close>.\<close>

definition index :: "'a store \<Rightarrow> slice_hdr \<Rightarrow> int \<Rightarrow> panic + 'a" where
  "index h s k =
     (if 0 \<le> k \<and> k < int (hlen s) then Inr (h ! array s ! (offset s + nat k))
      else Inl IndexOutOfRange)"

definition assign :: "'a store \<Rightarrow> slice_hdr \<Rightarrow> int \<Rightarrow> 'a \<Rightarrow> panic + 'a store" where
  "assign h s k v =
     (if 0 \<le> k \<and> k < int (hlen s)
      then Inr (h[array s := (h ! array s)[offset s + nat k := v]])
      else Inl IndexOutOfRange)"

text \<open>\<^verbatim>\<open>s[i:j]\<close>: the bounds are checked against the capacity.\<close>

definition reslice :: "slice_hdr \<Rightarrow> int \<Rightarrow> int \<Rightarrow> panic + slice_hdr" where
  "reslice s i j =
     (if 0 \<le> i \<and> i \<le> j \<and> j \<le> int (hcap s)
      then Inr \<lparr>array = array s, offset = offset s + nat i, hlen = nat (j - i),
                hcap = hcap s - nat i\<rparr>
      else Inl SliceBoundsOutOfRange)"

text \<open>\<^verbatim>\<open>make([]T, n)\<close> allocates a new array of \<open>n\<close> zero values; \<^verbatim>\<open>copy(dst, src)\<close> writes the
  first \<open>min(len(dst), len(src))\<close> elements of \<open>src\<close> into \<open>dst\<close>.\<close>

definition make_slice :: "'a store \<Rightarrow> 'a \<Rightarrow> nat \<Rightarrow> 'a store \<times> slice_hdr" where
  "make_slice h zero n =
     (h @ [replicate n zero], \<lparr>array = length h, offset = 0, hlen = n, hcap = n\<rparr>)"

definition copy_slice :: "'a store \<Rightarrow> slice_hdr \<Rightarrow> slice_hdr \<Rightarrow> 'a store" where
  "copy_slice h dst src =
     (let n = min (hlen dst) (hlen src);
          vals = take n (load h src);
          a = h ! array dst
      in h[array dst := take (offset dst) a @ vals @ drop (offset dst + n) a])"

definition int64 :: "int \<Rightarrow> int" where
  "int64 x = (x + 2 ^ 63) mod 2 ^ 64 - 2 ^ 63"

definition quot :: "int \<Rightarrow> int \<Rightarrow> int" where
  "quot a b = sgn a * sgn b * (\<bar>a\<bar> div \<bar>b\<bar>)"

definition rem :: "int \<Rightarrow> int \<Rightarrow> int" where
  "rem a b = a - b * quot a b"

subsection \<open>Chunk\<close>

text \<open>The loop of \<^verbatim>\<open>Chunk\<close>. Alone it does not return when \<open>size = 0\<close>, so it is a partial
  function: \<open>None\<close> is a run that never ends.\<close>

partial_function (option) Chunk_loop ::
  "slice_hdr \<Rightarrow> int \<Rightarrow> int \<Rightarrow> slice_hdr list \<Rightarrow> (panic + slice_hdr list) option" where
  "Chunk_loop slice size' i chunks =
     (if i < int (hlen slice)
      then (let e = int64 (i + size');
                e = (if e > int (hlen slice) then int (hlen slice) else e)
            in case reslice slice i e of
                 Inl p \<Rightarrow> Some (Inl p)
               | Inr c \<Rightarrow> Chunk_loop slice size' (int64 (i + size')) (chunks @ [c]))
      else Some (Inr chunks))"

declare Chunk_loop.simps [code]

text \<open>\<^verbatim>\<open>make([][]T, 0, chunksCount)\<close> panics when \<open>chunksCount\<close> is negative.\<close>

definition Chunk :: "slice_hdr \<Rightarrow> int \<Rightarrow> (panic + slice_hdr list) option" where
  "Chunk slice size' =
     (if size' \<le> 0 \<or> hlen slice = 0 then Some (Inr [])
      else
        let chunksCount = quot (int64 (int64 (int (hlen slice) + size') - 1)) size'
        in if chunksCount < 0 then Some (Inl MakeSliceCapOutOfRange)
           else Chunk_loop slice size' 0 [])"

subsection \<open>Shuffle\<close>

text \<open>The loop that is compiled: \<^verbatim>\<open>j := i % (i + 1)\<close>, then
  \<^verbatim>\<open>result[i], result[j] = result[j], result[i]\<close>. Both right-hand sides are read before
  the first write. \<open>i + 1\<close> is at least 2 or wraps to a negative number, never 0.\<close>

function Shuffle_loop :: "'a store \<Rightarrow> slice_hdr \<Rightarrow> int \<Rightarrow> panic + 'a store" where
  "Shuffle_loop h result i =
     (if i > 0
      then (let j = rem i (int64 (i + 1))
            in case index h result j of
                 Inl p \<Rightarrow> Inl p
               | Inr vj \<Rightarrow>
                  (case index h result i of
                     Inl p \<Rightarrow> Inl p
                   | Inr vi \<Rightarrow>
                      (case assign h result i vj of
                         Inl p \<Rightarrow> Inl p
                       | Inr h1 \<Rightarrow>
                          (case assign h1 result j vi of
                             Inl p \<Rightarrow> Inl p
                           | Inr h2 \<Rightarrow> Shuffle_loop h2 result (i - 1)))))
      else Inr h)"
  by pat_completeness auto
termination
  by (relation "measure (\<lambda>(h, result, i). nat i)") auto

declare Shuffle_loop.simps [simp del]

definition Shuffle :: "'a \<Rightarrow> 'a store \<Rightarrow> slice_hdr \<Rightarrow> panic + 'a store \<times> slice_hdr" where
  "Shuffle zero h slice =
     (if hlen slice \<le> 1
      then (let (h1, result) = make_slice h zero (hlen slice);
                h2 = copy_slice h1 result slice
            in Inr (h2, result))
      else (let (h1, result) = make_slice h zero (hlen slice);
                h2 = copy_slice h1 result slice
            in case Shuffle_loop h2 result (int (hlen result) - 1) of
                 Inl p \<Rightarrow> Inl p
               | Inr h3 \<Rightarrow> Inr (h3, result)))"

subsection \<open>The range of the specification of fill\<close>

text \<open>The specification of \<^verbatim>\<open>fill\<close> speaks of \<open>clamp(x, lo, hi)\<close>; this definition follows its
  words and is not part of the code.\<close>

definition clamp :: "int \<Rightarrow> int \<Rightarrow> int \<Rightarrow> int" where
  "clamp x lo hi = (if x < lo then lo else if x > hi then hi else x)"

subsection \<open>The groups of the specification of chunk\<close>

text \<open>The specification of \<^verbatim>\<open>chunk\<close> asks for consecutive groups of \<open>k\<close> elements, the last one
  possibly shorter. \<open>chunks_from h s k i cs\<close> says so of the headers \<open>cs\<close> for the part of \<open>s\<close>
  from position \<open>i\<close> on, and records that every group lies in the window of \<open>s\<close> in the array
  of \<open>s\<close>. It follows the specification and is not part of the code.\<close>

definition chunks_from :: "'a store \<Rightarrow> slice_hdr \<Rightarrow> nat \<Rightarrow> nat \<Rightarrow> slice_hdr list \<Rightarrow> bool" where
  "chunks_from h s k i cs \<longleftrightarrow>
     concat (map (load h) cs) = drop i (load h s) \<and>
     (\<forall>c\<in>set cs. array c = array s \<and> offset s + i \<le> offset c \<and>
                  offset c + hlen c \<le> offset s + hlen s) \<and>
     (\<forall>c\<in>set (butlast cs). hlen c = k) \<and>
     (cs \<noteq> [] \<longrightarrow> 1 \<le> hlen (last cs) \<and> hlen (last cs) \<le> k) \<and>
     (cs \<noteq> [] \<longleftrightarrow> i < hlen s)"

section \<open>Properties of the value operations\<close>

subsection \<open>Reading a slice value\<close>

lemma elems_simps: "elems None = []" "elems (Some xs) = xs"
  by (simp_all add: elems_def)

lemma Concat_loop_eq: "Concat_loop ss acc = acc @ concat (map elems ss)"
  by (induction ss arbitrary: acc) simp_all

subsection \<open>Take and Drop\<close>



subsection \<open>The set operations\<close>

lemma fill_set_None: "fill_set xs m v = None \<longleftrightarrow> m v = None \<and> v \<notin> set xs"
  by (induction xs arbitrary: m) auto

lemma Difference_loop_eq:
  "Difference_loop xs m acc = acc @ filter (\<lambda>v. m v = None) xs"
  by (induction xs arbitrary: acc) simp_all

text \<open>
  C5. \<^verbatim>\<open>Difference(a, b)\<close> is the subsequence of \<open>a\<close> of the elements whose value does not
  occur in \<open>b\<close>: the order of \<open>a\<close> is kept, and every occurrence in \<open>a\<close> of a value absent
  from \<open>b\<close> is kept.
\<close>

theorem Difference_filter:
  "Difference a b = Some (filter (\<lambda>v. v \<notin> set (elems b)) (elems a))"
  by (simp add: Difference_def len_def Difference_loop_eq fill_set_None)





lemma Intersection_loop_set:
  "set (Intersection_loop xs m seen acc) =
     set acc \<union> {v \<in> set xs. m v \<noteq> None \<and> seen v = None}"
  by (induction xs arbitrary: seen acc) auto

lemma Intersection_loop_distinct:
  "distinct acc \<Longrightarrow> set acc \<subseteq> dom seen \<Longrightarrow> distinct (Intersection_loop xs m seen acc)"
proof (induction xs arbitrary: seen acc)
  case Nil
  then show ?case by simp
next
  case (Cons v vs)
  show ?case
  proof (cases "m v \<noteq> None \<and> seen v = None")
    case True
    then have "v \<notin> set acc" using Cons.prems(2) by (auto simp: dom_def)
    then have "distinct (acc @ [v])" using Cons.prems(1) by simp
    moreover have "set (acc @ [v]) \<subseteq> dom (seen(v \<mapsto> ()))"
      using Cons.prems(2) by auto
    ultimately have "distinct (Intersection_loop vs m (seen(v \<mapsto> ())) (acc @ [v]))"
      by (rule Cons.IH)
    with True show ?thesis by simp
  next
    case False
    have "distinct (Intersection_loop vs m seen acc)"
      using Cons.prems by (rule Cons.IH)
    with False show ?thesis by auto
  qed
qed

text \<open>
  C6. The values of \<^verbatim>\<open>Intersection(a, b)\<close> are exactly the values that occur in both \<open>a\<close>
  and \<open>b\<close>, and no value is emitted twice.
\<close>

theorem Intersection_set_distinct:
  "set (elems (Intersection a b)) = set (elems a) \<inter> set (elems b) \<and>
   distinct (elems (Intersection a b))"
  by (auto simp: Intersection_def len_def elems_simps Intersection_loop_set
      Intersection_loop_distinct fill_set_None)

subsection \<open>TakeWhile and DropWhile\<close>






subsection \<open>Equals\<close>

lemma Equals_loop_iff:
  "Equals_loop a b i \<longleftrightarrow> (\<forall>j. i \<le> j \<and> j < length a \<longrightarrow> a ! j = b ! j)"
proof (induction a b i rule: Equals_loop.induct)
  case (1 a b i)
  show ?case
  proof (cases "i < length a")
    case False
    then have "Equals_loop a b i" by (subst Equals_loop.simps) simp
    with False show ?thesis by auto
  next
    case True
    show ?thesis
    proof (cases "a ! i = b ! i")
      case False
      then have "\<not> Equals_loop a b i" using True by (subst Equals_loop.simps) simp
      with False True show ?thesis by auto
    next
      case eq: True
      have "Equals_loop a b i = Equals_loop a b (Suc i)"
        using True eq by (subst Equals_loop.simps) simp
      also have "\<dots> \<longleftrightarrow> (\<forall>j. Suc i \<le> j \<and> j < length a \<longrightarrow> a ! j = b ! j)"
        using "1.IH" True eq by simp
      also have "\<dots> \<longleftrightarrow> (\<forall>j. i \<le> j \<and> j < length a \<longrightarrow> a ! j = b ! j)"
      proof (intro iffI allI impI)
        fix j assume h: "\<forall>j. Suc i \<le> j \<and> j < length a \<longrightarrow> a ! j = b ! j" and j: "i \<le> j \<and> j < length a"
        show "a ! j = b ! j"
        proof (cases "j = i")
          case True then show ?thesis using eq by simp
        next
          case False then have "Suc i \<le> j" using j by simp
          then show ?thesis using h j by blast
        qed
      next
        fix j assume h: "\<forall>j. i \<le> j \<and> j < length a \<longrightarrow> a ! j = b ! j" and j: "Suc i \<le> j \<and> j < length a"
        then have "i \<le> j \<and> j < length a" by simp
        then show "a ! j = b ! j" using h by blast
      qed
      finally show ?thesis .
    qed
  qed
qed

text \<open>
  C8. \<^verbatim>\<open>Equals(a, b)\<close> is true exactly when \<open>a\<close> and \<open>b\<close> have the same length, are both nil
  or both non-nil, and agree at every position; the nil slice and a non-nil empty slice
  compare unequal.
\<close>

theorem Equals_iff:
  "(Equals a b \<longleftrightarrow>
      len a = len b \<and> (a = None \<longleftrightarrow> b = None) \<and> (\<forall>i<len a. elems a ! i = elems b ! i)) \<and>
   \<not> Equals None (Some [])"
  by (simp add: Equals_def Equals_loop_iff len_def)

theorem Equals_iff_witness:
  "Equals (Some [1, 2 :: int]) (Some [1, 2]) \<and> \<not> Equals (Some [1, 2 :: int]) (Some [1, 3]) \<and>
   \<not> Equals (None :: int slice) (Some [])"
  using Equals_iff [of "Some [1, 2 :: int]" "Some [1, 2]"]
        Equals_iff [of "Some [1, 2 :: int]" "Some [1, 3]"]
  by (auto simp add: len_def elems_def)

subsection \<open>Fill\<close>

lemma Fill_loop_ok:
  "0 \<le> i \<Longrightarrow> e \<le> int (length r) \<Longrightarrow>
   \<exists>r'. Fill_loop r v i e = Inr r' \<and> length r' = length r \<and>
        (\<forall>k<length r. r' ! k = (if i \<le> int k \<and> int k < e then v else r ! k))"
proof (induction r v i e rule: Fill_loop.induct)
  case (1 r v i e)
  show ?case
  proof (cases "i < e")
    case False
    then have "Fill_loop r v i e = Inr r" by (subst Fill_loop.simps) simp
    with False show ?thesis by auto
  next
    case True
    then have inr: "0 \<le> i \<and> i < int (length r)" using "1.prems" by simp
    have step: "Fill_loop r v i e = Fill_loop (r[nat i := v]) v (i + 1) e"
      using True inr by (subst Fill_loop.simps) simp
    have "\<exists>r'. Fill_loop (r[nat i := v]) v (i + 1) e = Inr r' \<and>
            length r' = length (r[nat i := v]) \<and>
            (\<forall>k<length (r[nat i := v]).
               r' ! k = (if i + 1 \<le> int k \<and> int k < e then v else (r[nat i := v]) ! k))"
      using "1.IH" True inr "1.prems" by simp
    then obtain r' where r': "Fill_loop (r[nat i := v]) v (i + 1) e = Inr r'"
      "length r' = length r"
      "\<forall>k<length r. r' ! k = (if i + 1 \<le> int k \<and> int k < e then v else (r[nat i := v]) ! k)"
      by auto
    have "\<forall>k<length r. r' ! k = (if i \<le> int k \<and> int k < e then v else r ! k)"
    proof (intro allI impI)
      fix k assume k: "k < length r"
      show "r' ! k = (if i \<le> int k \<and> int k < e then v else r ! k)"
      proof (cases "int k = i")
        case True
        then have "nat i = k" by simp
        then show ?thesis using r'(3) k True \<open>i < e\<close> by simp
      next
        case False
        then have "nat i \<noteq> k" using inr by auto
        then show ?thesis using r'(3) k False by auto
      qed
    qed
    with step r' show ?thesis by simp
  qed
qed

lemma Fill_nth:
  "\<exists>r. Fill s v start end' = Inr (Some r) \<and> length r = len s \<and>
       (\<forall>k<len s. r ! k =
          (if clamp start 0 (int (len s)) \<le> int k \<and> int k < clamp end' 0 (int (len s))
           then v else elems s ! k))"
proof -
  let ?n = "int (length (elems s))"
  let ?st = "if start < 0 then 0 else start"
  let ?e = "if end' > ?n then ?n else end'"
  show ?thesis
  proof (cases "?st \<ge> ?e \<or> ?st \<ge> ?n")
    case True
    then have "Fill s v start end' = Inr (Some (elems s))"
      by (simp add: Fill_def Let_def)
    moreover have "\<forall>k<len s. \<not> (clamp start 0 (int (len s)) \<le> int k \<and> int k < clamp end' 0 (int (len s)))"
      using True by (auto simp: clamp_def len_def split: if_splits)
    ultimately show ?thesis by (intro exI [of _ "elems s"]) (auto simp: len_def)
  next
    case False
    then have eq: "Fill s v start end' = map_sum id Some (Fill_loop (elems s) v ?st ?e)"
      by (simp add: Fill_def Let_def)
    have "0 \<le> ?st" "?e \<le> ?n" by simp_all
    from Fill_loop_ok [OF this, of v]
    obtain r' where r': "Fill_loop (elems s) v ?st ?e = Inr r'" "length r' = length (elems s)"
      "\<forall>k<length (elems s). r' ! k = (if ?st \<le> int k \<and> int k < ?e then v else elems s ! k)"
      by blast
    have "\<forall>k<len s. r' ! k =
          (if clamp start 0 (int (len s)) \<le> int k \<and> int k < clamp end' 0 (int (len s))
           then v else elems s ! k)"
      using r'(3) False by (auto simp: clamp_def len_def split: if_splits)
    with eq r' show ?thesis by (simp add: len_def)
  qed
qed

text \<open>
  C7. \<^verbatim>\<open>Fill(s, v, start, end)\<close> never panics and returns a slice of the length of \<open>s\<close> in
  which the positions of \<open>[clamp(start, 0, len(s)), clamp(end, 0, len(s)))\<close> hold \<open>v\<close> and all
  the others the element of \<open>s\<close>; with an empty range that is a copy of \<open>s\<close>.
\<close>

theorem Fill_clamped_range:
  "Fill s v start end' =
     Inr (Some (map (\<lambda>k. if clamp start 0 (int (len s)) \<le> int k \<and>
                           int k < clamp end' 0 (int (len s))
                        then v else elems s ! k) [0..<len s]))"
proof -
  obtain r where r: "Fill s v start end' = Inr (Some r)" "length r = len s"
    "\<forall>k<len s. r ! k =
       (if clamp start 0 (int (len s)) \<le> int k \<and> int k < clamp end' 0 (int (len s))
        then v else elems s ! k)"
    using Fill_nth [of s v start end'] by blast
  have "r = map (\<lambda>k. if clamp start 0 (int (len s)) \<le> int k \<and>
                         int k < clamp end' 0 (int (len s))
                      then v else elems s ! k) [0..<len s]"
    using r(2,3) by (intro nth_equalityI) simp_all
  with r(1) show ?thesis by simp
qed

theorem Fill_clamped_range_witness:
  "Fill (Some [1, 2, 3, 4, 5 :: int]) 0 1 3 = Inr (Some [1, 0, 0, 4, 5]) \<and>
   Fill (Some [1, 2, 3 :: int]) 0 (- 4) 7 = Inr (Some [0, 0, 0]) \<and>
   Fill (Some [1, 2, 3 :: int]) 0 2 1 = Inr (Some [1, 2, 3])"
  using Fill_clamped_range [of "Some [1, 2, 3, 4, 5 :: int]" 0 1 3]
    Fill_clamped_range [of "Some [1, 2, 3 :: int]" 0 "- 4" 7]
    Fill_clamped_range [of "Some [1, 2, 3 :: int]" 0 2 1]
  by (simp add: clamp_def len_def elems_def upt_rec)

section \<open>Properties of the operations on shared storage\<close>

subsection \<open>Arithmetic of the 64-bit int\<close>

lemma int64_id: "- (2 ^ 63) \<le> x \<Longrightarrow> x < 2 ^ 63 \<Longrightarrow> int64 x = x"
  by (simp add: int64_def)

lemma int64_wrap_high: "2 ^ 63 \<le> x \<Longrightarrow> x < 2 ^ 64 \<Longrightarrow> int64 x = x - 2 ^ 64"
proof -
  assume a: "2 ^ 63 \<le> x" "x < 2 ^ 64"
  have "(x + 2 ^ 63) mod 2 ^ 64 = (x + 2 ^ 63 - 2 ^ 64) mod 2 ^ 64"
    by (metis mod_diff_right_eq mod_self diff_zero)
  also have "\<dots> = x + 2 ^ 63 - 2 ^ 64" using a by (intro mod_pos_pos_trivial) simp_all
  finally show ?thesis by (simp add: int64_def)
qed

lemma int64_pred: "int64 (int64 x - 1) = int64 (x - 1)"
proof -
  have "((x + 2 ^ 63) mod 2 ^ 64 - 1) mod 2 ^ 64 = (x + 2 ^ 63 - 1) mod (2 ^ 64 :: int)"
    by (rule mod_diff_left_eq)
  then show ?thesis by (simp add: int64_def algebra_simps)
qed

lemma load_length: "wf_slice h s \<Longrightarrow> length (load h s) = hlen s"
  by (auto simp: wf_slice_def load_def)

subsection \<open>Shuffle\<close>

lemma rem_succ: "0 \<le> i \<Longrightarrow> i + 1 < 2 ^ 63 \<Longrightarrow> rem i (int64 (i + 1)) = i"
  by (simp add: int64_id rem_def quot_def)

lemma assign_same:
  "array r < length h \<Longrightarrow> 0 \<le> i \<Longrightarrow> i < int (hlen r) \<Longrightarrow>
   assign h r i (h ! array r ! (offset r + nat i)) = Inr h"
  by (simp add: assign_def)

lemma Shuffle_loop_id:
  "array r < length h \<Longrightarrow> i < int (hlen r) \<Longrightarrow> int (hlen r) < 2 ^ 63 \<Longrightarrow>
   Shuffle_loop h r i = Inr h"
proof (induction "nat i" arbitrary: i)
  case 0
  then have "\<not> i > 0" by simp
  then show ?case by (subst Shuffle_loop.simps) simp
next
  case (Suc n)
  then have pos: "0 < i" and i: "0 \<le> i" "i < int (hlen r)" "i + 1 < 2 ^ 63" by simp_all
  have j: "rem i (int64 (i + 1)) = i" using i by (simp add: rem_succ)
  have rd: "index h r i = Inr (h ! array r ! (offset r + nat i))"
    using i by (simp add: index_def)
  have wr: "assign h r i (h ! array r ! (offset r + nat i)) = Inr h"
    using Suc.prems(1) i by (simp add: assign_same)
  have "n = nat (i - 1)" using Suc.hyps(2) by simp
  then have rest: "Shuffle_loop h r (i - 1) = Inr h"
    using Suc.hyps(1) [of "i - 1"] Suc.prems by simp
  show ?case
    by (subst Shuffle_loop.simps) (simp add: pos j rd wr rest)
qed

lemma load_make_copy:
  assumes "wf_slice h s"
  shows "copy_slice (h @ [replicate (hlen s) zero])
           \<lparr>array = length h, offset = 0, hlen = hlen s, hcap = hlen s\<rparr> s = h @ [load h s]"
proof -
  have a: "array s < length h" and l: "hlen s \<le> length (drop (offset s) (h ! array s))"
    using assms by (auto simp: wf_slice_def)
  have ld: "load (h @ [replicate (hlen s) zero]) s = load h s"
    using a by (simp add: load_def nth_append)
  have len: "length (load h s) = hlen s" using l by (simp add: load_def)
  show ?thesis
    using len by (simp add: copy_slice_def ld Let_def)
qed

text \<open>
  C2. \<^verbatim>\<open>Shuffle(s)\<close> never panics and returns a slice on a newly allocated array (its address
  is the first one not in use before the call) that holds the elements of \<open>s\<close> in the same
  order: every swap of the loop is a self-swap. Nothing else in the store changes, and the
  result is a function of the contents of \<open>s\<close> alone, so equal inputs give equal outputs.
\<close>

theorem Shuffle_identity:
  "wf_slice h s \<Longrightarrow>
   Shuffle zero h s =
     Inr (h @ [load h s], \<lparr>array = length h, offset = 0, hlen = hlen s, hcap = hlen s\<rparr>) \<and>
   load (h @ [load h s]) \<lparr>array = length h, offset = 0, hlen = hlen s, hcap = hlen s\<rparr> =
     load h s \<and>
   load (h @ [load h s]) s = load h s"
proof -
  assume wf: "wf_slice h s"
  let ?r = "\<lparr>array = length h, offset = 0, hlen = hlen s, hcap = hlen s\<rparr>"
  have cp: "copy_slice (h @ [replicate (hlen s) zero]) ?r s = h @ [load h s]"
    using wf by (rule load_make_copy)
  have "int (hlen s) < 2 ^ 63" using wf by (simp add: wf_slice_def)
  then have lp: "Shuffle_loop (h @ [load h s]) ?r (int (hlen s) - 1) = Inr (h @ [load h s])"
    by (intro Shuffle_loop_id) simp_all
  have run: "Shuffle zero h s = Inr (h @ [load h s], ?r)"
    by (simp add: Shuffle_def make_slice_def cp lp)
  have new: "load (h @ [load h s]) ?r = load h s"
    using load_length [OF wf] by (simp add: load_def)
  have "array s < length h" using wf by (simp add: wf_slice_def)
  then have old: "load (h @ [load h s]) s = load h s"
    by (simp add: load_def nth_append)
  from run new old show ?thesis by blast
qed

theorem Shuffle_identity_witness:
  "wf_slice [[1, 2, 3, 4, 5 :: int]] \<lparr>array = 0, offset = 1, hlen = 3, hcap = 4\<rparr> \<and>
   Shuffle 0 [[1, 2, 3, 4, 5 :: int]] \<lparr>array = 0, offset = 1, hlen = 3, hcap = 4\<rparr> =
     Inr ([[1, 2, 3, 4, 5], [2, 3, 4]], \<lparr>array = 1, offset = 0, hlen = 3, hcap = 3\<rparr>)"
proof -
  have wf: "wf_slice [[1, 2, 3, 4, 5 :: int]] \<lparr>array = 0, offset = 1, hlen = 3, hcap = 4\<rparr>"
    by (simp add: wf_slice_def)
  show ?thesis
    using wf Shuffle_identity [OF wf, of 0] by (simp add: load_def)
qed

subsection \<open>Chunk\<close>

text \<open>The call always returns, with the groups or with a panic.\<close>

lemma Chunk_loop_returns:
  assumes sz: "0 < sz" "sz < 2 ^ 63" and n: "int (hlen s) < 2 ^ 63"
  shows "0 \<le> i \<Longrightarrow> \<exists>r. Chunk_loop s sz i acc = Some r"
proof (induction "nat (int (hlen s) - i)" arbitrary: i acc rule: less_induct)
  case less
  show ?case
  proof (cases "i < int (hlen s)")
    case False
    then show ?thesis by (subst Chunk_loop.simps) simp
  next
    case True
    let ?e0 = "int64 (i + sz)"
    let ?e = "if ?e0 > int (hlen s) then int (hlen s) else ?e0"
    have unfold: "Chunk_loop s sz i acc =
        (case reslice s i ?e of
           Inl p \<Rightarrow> Some (Inl p)
         | Inr c \<Rightarrow> Chunk_loop s sz (int64 (i + sz)) (acc @ [c]))"
      using True by (subst Chunk_loop.simps) (simp only: Let_def if_True)
    show ?thesis
    proof (cases "reslice s i ?e")
      case (Inl p)
      then show ?thesis by (simp only: unfold sum.case) simp
    next
      case (Inr c)
      then have b: "i \<le> ?e" by (simp add: reslice_def split: if_splits)
      have nowrap: "i + sz < 2 ^ 63"
      proof (rule ccontr)
        assume "\<not> i + sz < 2 ^ 63"
        then have "int64 (i + sz) = i + sz - 2 ^ 64"
          using True n sz by (intro int64_wrap_high) simp_all
        then have "?e0 < 0" using True n sz by simp
        then have "?e < 0" by simp
        with b less.prems show False by simp
      qed
      then have w: "int64 (i + sz) = i + sz"
        using less.prems sz by (intro int64_id) simp_all
      have "nat (int (hlen s) - (i + sz)) < nat (int (hlen s) - i)"
        using True sz by simp
      from less.hyps [OF this, of "acc @ [c]"]
      obtain r where "Chunk_loop s sz (i + sz) (acc @ [c]) = Some r"
        using less.prems sz by auto
      moreover have "Chunk_loop s sz i acc = Chunk_loop s sz (int64 (i + sz)) (acc @ [c])"
        by (simp only: unfold Inr sum.case)
      ultimately show ?thesis by (simp only: w) simp
    qed
  qed
qed

lemma Chunk_returns:
  "sz < 2 ^ 63 \<Longrightarrow> int (hlen s) < 2 ^ 63 \<Longrightarrow> \<exists>r. Chunk s sz = Some r"
  using Chunk_loop_returns [of sz s 0 "[]"] by (simp add: Chunk_def Let_def)

text \<open>The groups when the sum \<open>len(s) + size - 1\<close> fits the 64 bits.\<close>

lemma Chunk_loop_step:
  "0 \<le> i \<Longrightarrow> i < int (hlen s) \<Longrightarrow> i + sz < 2 ^ 63 \<Longrightarrow> 0 < sz \<Longrightarrow> hlen s \<le> hcap s \<Longrightarrow>
   Chunk_loop s sz i acc =
     Chunk_loop s sz (i + sz)
       (acc @ [\<lparr>array = array s, offset = offset s + nat i,
                hlen = min (nat sz) (hlen s - nat i), hcap = hcap s - nat i\<rparr>])"
proof -
  assume a: "0 \<le> i" "i < int (hlen s)" "i + sz < 2 ^ 63" "0 < sz" "hlen s \<le> hcap s"
  have w: "int64 (i + sz) = i + sz" using a by (intro int64_id) simp_all
  have m: "nat (min (i + sz) (int (hlen s)) - i) = min (nat sz) (hlen s - nat i)"
    using a by arith
  have e: "(if i + sz > int (hlen s) then int (hlen s) else i + sz) = min (i + sz) (int (hlen s))"
    by (simp add: min_def)
  have r: "reslice s i (min (i + sz) (int (hlen s))) =
      Inr \<lparr>array = array s, offset = offset s + nat i,
            hlen = min (nat sz) (hlen s - nat i), hcap = hcap s - nat i\<rparr>"
    using a by (simp add: reslice_def m)
  show ?thesis
    using a by (subst Chunk_loop.simps) (simp add: w e r Let_def)
qed


lemma load_view:
  "load h \<lparr>array = array s, offset = offset s + j, hlen = min k (hlen s - j),
           hcap = hcap s - j\<rparr> = take k (drop j (load h s))"
  by (simp add: load_def drop_take take_take add.commute min.commute)

lemma chunks_from_Nil: "wf_slice h s \<Longrightarrow> hlen s \<le> j \<Longrightarrow> chunks_from h s k j []"
  by (simp add: chunks_from_def load_length)

lemma chunks_from_Cons:
  assumes wf: "wf_slice h s" and k: "0 < k" and j: "j < hlen s"
    and rest: "chunks_from h s k (j + k) cs"
  shows "chunks_from h s k j
           (\<lparr>array = array s, offset = offset s + j, hlen = min k (hlen s - j),
             hcap = hcap s - j\<rparr> # cs)"
proof -
  let ?c = "\<lparr>array = array s, offset = offset s + j, hlen = min k (hlen s - j),
             hcap = hcap s - j\<rparr>"
  have cat: "concat (map (load h) cs) = drop (j + k) (load h s)"
    and views: "\<forall>c\<in>set cs. array c = array s \<and> offset s + (j + k) \<le> offset c \<and>
                  offset c + hlen c \<le> offset s + hlen s"
    and full: "\<forall>c\<in>set (butlast cs). hlen c = k"
    and lst: "cs \<noteq> [] \<longrightarrow> 1 \<le> hlen (last cs) \<and> hlen (last cs) \<le> k"
    and ne: "cs \<noteq> [] \<longleftrightarrow> j + k < hlen s"
    using rest by (simp_all add: chunks_from_def)
  have lc: "load h ?c = take k (drop j (load h s))" by (rule load_view)
  have "drop (j + k) (load h s) = drop k (drop j (load h s))"
    by (simp add: add.commute)
  then have "concat (map (load h) (?c # cs)) =
      take k (drop j (load h s)) @ drop k (drop j (load h s))"
    using cat lc by (simp only: list.map concat.simps)
  then have a: "concat (map (load h) (?c # cs)) = drop j (load h s)"
    by (simp only: append_take_drop_id)
  have b: "\<forall>c\<in>set (?c # cs). array c = array s \<and> offset s + j \<le> offset c \<and>
                  offset c + hlen c \<le> offset s + hlen s"
    using views j by auto
  have c: "\<forall>c\<in>set (butlast (?c # cs)). hlen c = k"
    using full ne by auto
  have d: "1 \<le> hlen (last (?c # cs)) \<and> hlen (last (?c # cs)) \<le> k"
    using lst ne j k by auto
  show ?thesis
    unfolding chunks_from_def using a b c d j by blast
qed

lemma Chunk_loop_chunks:
  assumes wf: "wf_slice h s" and k: "0 < k" and no: "int (hlen s) + int k \<le> 2 ^ 63"
  shows "\<exists>cs. Chunk_loop s (int k) (int j) acc = Some (Inr (acc @ cs)) \<and> chunks_from h s k j cs"
proof (induction "hlen s - j" arbitrary: j acc rule: less_induct)
  case less
  show ?case
  proof (cases "j < hlen s")
    case False
    then have "Chunk_loop s (int k) (int j) acc = Some (Inr (acc @ []))"
      by (subst Chunk_loop.simps) simp
    moreover have "chunks_from h s k j []"
      using wf False by (intro chunks_from_Nil) simp_all
    ultimately show ?thesis by blast
  next
    case True
    let ?c = "\<lparr>array = array s, offset = offset s + j, hlen = min k (hlen s - j),
               hcap = hcap s - j\<rparr>"
    have "hlen s \<le> hcap s" using wf by (simp add: wf_slice_def)
    then have step: "Chunk_loop s (int k) (int j) acc =
        Chunk_loop s (int k) (int (j + k)) (acc @ [?c])"
      using Chunk_loop_step [of "int j" s "int k" acc] True k no by simp
    have "hlen s - (j + k) < hlen s - j" using True k by simp
    from less [OF this, of "acc @ [?c]"]
    obtain cs where cs: "Chunk_loop s (int k) (int (j + k)) (acc @ [?c]) =
        Some (Inr ((acc @ [?c]) @ cs))" "chunks_from h s k (j + k) cs"
      by blast
    have "chunks_from h s k j (?c # cs)"
      using wf k True cs(2) by (rule chunks_from_Cons)
    moreover have "Chunk_loop s (int k) (int j) acc = Some (Inr (acc @ ?c # cs))"
      using step cs(1) by simp
    ultimately show ?thesis by blast
  qed
qed

lemma quot_nonneg: "0 \<le> a \<Longrightarrow> 0 < b \<Longrightarrow> 0 \<le> quot a b"
  by (simp add: quot_def sgn_if pos_imp_zdiv_nonneg_iff)

lemma Chunk_chunks:
  assumes wf: "wf_slice h s" and sz: "0 < sz" and n: "hlen s \<noteq> 0"
    and no: "int (hlen s) + sz - 1 < 2 ^ 63"
  shows "\<exists>cs. Chunk s sz = Some (Inr cs) \<and> chunks_from h s (nat sz) 0 cs"
proof -
  have "int64 (int64 (int (hlen s) + sz) - 1) = int (hlen s) + sz - 1"
    using sz no by (simp add: int64_pred int64_id)
  then have cnt: "\<not> quot (int64 (int64 (int (hlen s) + sz) - 1)) sz < 0"
    using sz n quot_nonneg [of "int (hlen s) + sz - 1" sz] by simp
  have "\<exists>cs. Chunk_loop s (int (nat sz)) (int 0) [] = Some (Inr ([] @ cs)) \<and>
          chunks_from h s (nat sz) 0 cs"
    using wf sz no by (intro Chunk_loop_chunks) simp_all
  then show ?thesis
    using sz n cnt by (simp add: Chunk_def Let_def)
qed

text \<open>The panic when it does not: the sum wraps to a negative number, and the quotient is
  negative unless \<open>size\<close> is more than about half of \<open>2 ^ 64 - len(s)\<close>.\<close>

lemma Chunk_overflow_panics:
  assumes sz: "0 < sz" "sz < 2 ^ 63" and n: "0 < hlen s" "int (hlen s) < 2 ^ 63"
    and ov: "2 ^ 63 \<le> int (hlen s) + sz - 1" and big: "2 * sz + int (hlen s) \<le> 2 ^ 64 + 1"
  shows "Chunk s sz = Some (Inl MakeSliceCapOutOfRange)"
proof -
  let ?w = "int (hlen s) + sz - 1 - 2 ^ 64"
  have "int64 (int64 (int (hlen s) + sz) - 1) = int64 (int (hlen s) + sz - 1)"
    by (rule int64_pred)
  also have "\<dots> = ?w" using sz n ov by (intro int64_wrap_high) simp_all
  finally have w: "int64 (int64 (int (hlen s) + sz) - 1) = ?w" .
  have neg: "?w < 0" using sz n by simp
  have "sz \<le> \<bar>?w\<bar>" using big neg by simp
  then have "0 < \<bar>?w\<bar> div sz" using sz by (simp only: pos_imp_zdiv_pos_iff)
  then have "quot ?w sz < 0" using neg sz by (simp add: quot_def sgn_if)
  then show ?thesis using sz n w by (simp add: Chunk_def Let_def)
qed

text \<open>
  C9. \<^verbatim>\<open>Chunk(s, size)\<close> is empty when \<open>size \<le> 0\<close> or \<open>s\<close> is empty, and otherwise splits \<open>s\<close>
  into consecutive groups of \<open>size\<close> elements with a shorter last group (\<open>Chunk_chunks\<close>),
  as long as \<open>len(s) + size - 1\<close> does not overflow. It does for a slice of two elements
  and the largest \<open>size\<close>: the capacity computed for the result is \<open>-1\<close> and the call panics
  where one group of two elements is due.
\<close>

theorem Chunk_huge_size_panics:
  "Chunk \<lparr>array = 0, offset = 0, hlen = 2, hcap = 2\<rparr> 9223372036854775807 =
     Some (Inl MakeSliceCapOutOfRange)"
  by (simp add: Chunk_def int64_def quot_def)

text \<open>A write through a header that lies in the window of \<open>s\<close> in the array of \<open>s\<close> is a write
  to \<open>s\<close>.\<close>

lemma view_write_visible:
  assumes wf: "wf_slice h s" and ar: "array c = array s" and lo: "offset s \<le> offset c"
    and hi: "offset c + hlen c \<le> offset s + hlen s" and p: "p < hlen c"
  shows "assign h c (int p) v = Inr (h[array s := (h ! array s)[offset c + p := v]]) \<and>
         load (h[array s := (h ! array s)[offset c + p := v]]) s =
           (load h s)[offset c - offset s + p := v] \<and>
         offset c - offset s + p < length (load h s)"
proof -
  have a: "array s < length h" and l: "length (load h s) = hlen s"
    using wf by (simp_all add: wf_slice_def load_length)
  have "assign h c (int p) v = Inr (h[array s := (h ! array s)[offset c + p := v]])"
    using p ar by (simp add: assign_def)
  moreover have "load (h[array s := (h ! array s)[offset c + p := v]]) s =
           (load h s)[offset c - offset s + p := v]"
    using a lo by (simp add: load_def drop_update_swap take_update_swap)
  moreover have "offset c - offset s + p < length (load h s)"
    using l lo hi p by simp
  ultimately show ?thesis by blast
qed

lemma Chunk_writes_reach_input:
  assumes wf: "wf_slice h s" and sz: "0 < sz" and n: "hlen s \<noteq> 0"
    and no: "int (hlen s) + sz - 1 < 2 ^ 63"
    and run: "Chunk s sz = Some (Inr cs)" and c: "c \<in> set cs" and p: "p < hlen c"
  shows "\<exists>h'. assign h c (int p) v = Inr h' \<and>
           load h' s = (load h s)[offset c - offset s + p := v] \<and>
           offset c - offset s + p < length (load h s)"
proof -
  obtain cs' where "Chunk s sz = Some (Inr cs')" "chunks_from h s (nat sz) 0 cs'"
    using Chunk_chunks [OF wf sz n no] by blast
  with run have "chunks_from h s (nat sz) 0 cs" by simp
  then have "array c = array s" "offset s \<le> offset c"
    "offset c + hlen c \<le> offset s + hlen s"
    using c by (auto simp: chunks_from_def)
  from view_write_visible [OF wf this p] show ?thesis by blast
qed

text \<open>
  C1. The groups returned by \<^verbatim>\<open>Chunk\<close> are not storage of their own: they are slice
  expressions of the argument. For \<open>[1, 2, 3, 4, 5]\<close> and size 2 the three groups are
  windows of the array of the argument; writing 99 to element 0 of the second group turns
  the argument into \<open>[1, 2, 99, 4, 5]\<close>, and writing 77 to element 4 of the argument turns
  the third group into \<open>[77]\<close>.
\<close>

theorem Chunk_aliases_input:
  "Chunk \<lparr>array = 0, offset = 0, hlen = 5, hcap = 5\<rparr> 2 =
     Some (Inr [\<lparr>array = 0, offset = 0, hlen = 2, hcap = 5\<rparr>,
                \<lparr>array = 0, offset = 2, hlen = 2, hcap = 3\<rparr>,
                \<lparr>array = 0, offset = 4, hlen = 1, hcap = 1\<rparr>]) \<and>
   load [[1, 2, 3, 4, 5 :: int]] \<lparr>array = 0, offset = 0, hlen = 5, hcap = 5\<rparr> = [1, 2, 3, 4, 5] \<and>
   assign [[1, 2, 3, 4, 5 :: int]] \<lparr>array = 0, offset = 2, hlen = 2, hcap = 3\<rparr> 0 99 =
     Inr [[1, 2, 99, 4, 5]] \<and>
   load [[1, 2, 99, 4, 5 :: int]] \<lparr>array = 0, offset = 0, hlen = 5, hcap = 5\<rparr> = [1, 2, 99, 4, 5] \<and>
   load [[1, 2, 3, 4, 5 :: int]] \<lparr>array = 0, offset = 4, hlen = 1, hcap = 1\<rparr> = [5] \<and>
   assign [[1, 2, 3, 4, 5 :: int]] \<lparr>array = 0, offset = 0, hlen = 5, hcap = 5\<rparr> 4 77 =
     Inr [[1, 2, 3, 4, 77]] \<and>
   load [[1, 2, 3, 4, 77 :: int]] \<lparr>array = 0, offset = 4, hlen = 1, hcap = 1\<rparr> = [77]"
  by (simp add: Chunk_def int64_def quot_def Chunk_loop.simps reslice_def load_def assign_def)

end
